theory Spec2Isabelle
  imports Main
begin

section \<open>Nested sequences: \<^verbatim>\<open>flatten\<close> and \<^verbatim>\<open>convert_to_nested_indices\<close>\<close>

text \<open>
  A nested sequence of brainstorm/utils.py is a Python list or tuple whose elements are
  either further lists/tuples or anything else.  \<open>Nested\<close> stands for an element that
  passes \<^verbatim>\<open>isinstance(i, (list, tuple))\<close>, \<open>Item\<close> for every other element.  The
  container handed to the functions is the list of its elements.
\<close>

datatype 'a nested = Item 'a | Nested "'a nested list"

text \<open>
  \<^verbatim>\<open>def flatten(container)\<close> (lines 66-73): a generator; the list below is the finite
  sequence of values it yields, in the order of the \<^verbatim>\<open>yield\<close> statements.
\<close>

fun flatten :: "'a nested list \<Rightarrow> 'a list" where
  "flatten [] = []"
| "flatten (Nested xs # rest) = flatten xs @ flatten rest"
| "flatten (Item x # rest) = x # flatten rest"

text \<open>
  \<^verbatim>\<open>def convert_to_nested_indices(container, start_idx=None)\<close> (lines 76-85).  The
  one-element list \<^verbatim>\<open>start_idx\<close> is a mutable cell shared by all recursive calls; the
  model threads its content through: the function takes the content of the cell and
  returns the yielded elements together with the content of the cell afterwards.
\<close>

fun convert_to_nested_indices_from :: "'a nested list \<Rightarrow> int \<Rightarrow> int nested list \<times> int" where
  "convert_to_nested_indices_from [] n = ([], n)"
| "convert_to_nested_indices_from (Nested xs # rest) n =
     (let (inner, m) = convert_to_nested_indices_from xs n;
          (ys, k) = convert_to_nested_indices_from rest m
      in (Nested inner # ys, k))"
| "convert_to_nested_indices_from (Item x # rest) n =
     (let (ys, k) = convert_to_nested_indices_from rest (n + 1)
      in (Item n # ys, k))"

text \<open>The call without \<^verbatim>\<open>start_idx\<close>: the cell is created as \<^verbatim>\<open>[0]\<close>.\<close>

definition convert_to_nested_indices :: "'a nested list \<Rightarrow> int nested list" where
  "convert_to_nested_indices container = fst (convert_to_nested_indices_from container 0)"

text \<open>
  The specification's wording of the traversal, for comparison with \<open>flatten\<close>: the leaves
  of one element, depth first and left to right.
\<close>

fun leaves :: "'a nested \<Rightarrow> 'a list" where
  "leaves (Item x) = [x]"
| "leaves (Nested xs) = concat (map leaves xs)"

section \<open>Dotted paths: \<^verbatim>\<open>get_normalized_path\<close>\<close>

text \<open>
  The exceptions the modelled functions can raise.  \<open>KeyError\<close> carries the missing key, as
  Python's does.
\<close>

datatype error = AssertionError | IndexError | KeyError string | TypeError

text \<open>
  Python's \<^verbatim>\<open>s.split(sep)\<close> for a one-character separator: the pieces between the
  occurrences of \<open>sep\<close>, empty pieces included; the result is never the empty list (the
  last case of the inner \<open>case\<close> is unreachable).
\<close>

fun str_split :: "char \<Rightarrow> string \<Rightarrow> string list" where
  "str_split sep [] = [[]]"
| "str_split sep (c # cs) =
     (if c = sep then [] # str_split sep cs
      else (case str_split sep cs of
              w # ws \<Rightarrow> (c # w) # ws
            | [] \<Rightarrow> [[c]]))"

text \<open>Python's \<^verbatim>\<open>sep.join(parts)\<close>.\<close>

fun str_join :: "string \<Rightarrow> string list \<Rightarrow> string" where
  "str_join sep [] = []"
| "str_join sep [x] = x"
| "str_join sep (x # y # ys) = x @ sep @ str_join sep (y # ys)"

text \<open>
  \<^verbatim>\<open>a.replace('..', '@')\<close>: every occurrence of two dots, found from the left and not
  overlapping, becomes one marker.
\<close>

fun replace_dotdot :: "string \<Rightarrow> string" where
  "replace_dotdot (a # b # cs) =
     (if a = CHR ''.'' \<and> b = CHR ''.'' then CHR ''@'' # replace_dotdot cs
      else a # replace_dotdot (b # cs))"
| "replace_dotdot cs = cs"

text \<open>
  \<^verbatim>\<open>def get_normalized_path(*args)\<close> (lines 120-134).  The first loop (lines 122-124)
  asserts that a fragment has no \<^verbatim>\<open>@\<close> and extends \<^verbatim>\<open>path_parts\<close>.
\<close>

fun collect_parts :: "string list \<Rightarrow> string list \<Rightarrow> error + string list" where
  "collect_parts path_parts [] = Inr path_parts"
| "collect_parts path_parts (a # args) =
     (if CHR ''@'' \<in> set a then Inl AssertionError
      else collect_parts (path_parts @ str_split (CHR ''.'') (replace_dotdot a)) args)"

text \<open>
  The \<^verbatim>\<open>while p.startswith('@')\<close> loop (lines 130-132): each leading marker pops the
  last element of \<^verbatim>\<open>normalized_parts\<close>; \<^verbatim>\<open>pop\<close> on an empty list raises IndexError.
\<close>

fun strip_markers :: "string list \<Rightarrow> string \<Rightarrow> error + (string list \<times> string)" where
  "strip_markers normalized_parts [] = Inr (normalized_parts, [])"
| "strip_markers normalized_parts (c # p) =
     (if c = CHR ''@''
      then (if normalized_parts = [] then Inl IndexError
            else strip_markers (butlast normalized_parts) p)
      else Inr (normalized_parts, c # p))"

text \<open>The second loop (lines 129-133): strip the markers of a part, then append it.\<close>

fun resolve_parts :: "string list \<Rightarrow> string list \<Rightarrow> error + string list" where
  "resolve_parts normalized_parts [] = Inr normalized_parts"
| "resolve_parts normalized_parts (p # ps) =
     (case strip_markers normalized_parts p of
        Inl e \<Rightarrow> Inl e
      | Inr (stack, q) \<Rightarrow> resolve_parts (stack @ [q]) ps)"

definition get_normalized_path :: "string list \<Rightarrow> error + string" where
  "get_normalized_path args =
     (case collect_parts [] args of
        Inl e \<Rightarrow> Inl e
      | Inr path_parts \<Rightarrow>
          if [] \<in> set path_parts then Inl AssertionError
          else (case resolve_parts [] path_parts of
                  Inl e \<Rightarrow> Inl e
                | Inr normalized_parts \<Rightarrow> Inr (str_join ''.'' normalized_parts)))"

text \<open>
  The vocabulary of the specification, for stating the claims about
  \<open>get_normalized_path\<close>.  The unreduced segments of a call are the pieces of all fragments
  after the translation of two dots into the marker and the split on the separator.
\<close>

definition path_parts :: "string list \<Rightarrow> string list" where
  "path_parts args = concat (map (\<lambda>a. str_split (CHR ''.'') (replace_dotdot a)) args)"

text \<open>A fragment contains the reserved marker character.\<close>

definition has_marker :: "string list \<Rightarrow> bool" where
  "has_marker args = (\<exists>a \<in> set args. CHR ''@'' \<in> set a)"


text \<open>
  A segment that is a run of markers (possibly none) followed by a non-empty remainder
  without markers.
\<close>

definition marked_segment :: "string \<Rightarrow> bool" where
  "marked_segment p =
     (dropWhile (\<lambda>c. c = CHR ''@'') p \<noteq> [] \<and> CHR ''@'' \<notin> set (dropWhile (\<lambda>c. c = CHR ''@'') p))"

text \<open>A segment as it may stand in a canonical path: non-empty, no marker, no separator.\<close>

definition plain_segment :: "string \<Rightarrow> bool" where
  "plain_segment w = (w \<noteq> [] \<and> CHR ''@'' \<notin> set w \<and> CHR ''.'' \<notin> set w)"

text \<open>
  CanonicalPath: non-empty, every segment non-empty, no marker character, and neither
  the first nor the last character is the separator.
\<close>

definition canonical_path :: "string \<Rightarrow> bool" where
  "canonical_path r =
     (r \<noteq> [] \<and> [] \<notin> set (str_split (CHR ''.'') r) \<and> CHR ''@'' \<notin> set r
      \<and> hd r \<noteq> CHR ''.'' \<and> last r \<noteq> CHR ''.'')"

section \<open>Nested mappings: \<^verbatim>\<open>flatten_keys\<close> and \<^verbatim>\<open>get_by_path\<close>\<close>

text \<open>
  The values of a nested dictionary: a \<^verbatim>\<open>dict\<close> with string keys, kept as the list of
  its items in iteration order, or a leaf.  The leaves are \<^verbatim>\<open>None\<close>, integers and
  strings; subscripting any of them with a string raises TypeError.
\<close>

datatype pyval = PyNone | PyInt int | PyStr string | PyDict "(string \<times> pyval) list"

fun is_dict :: "pyval \<Rightarrow> bool" where
  "is_dict (PyDict items) = True"
| "is_dict v = False"

text \<open>
  \<^verbatim>\<open>def flatten_keys(dictionary)\<close> (lines 156-177); \<open>flatten_keys_items\<close> is the loop over
  \<^verbatim>\<open>dictionary.items()\<close>, the appended keys in order.
\<close>

fun flatten_keys :: "pyval \<Rightarrow> string list"
  and flatten_keys_items :: "(string \<times> pyval) list \<Rightarrow> string list" where
  "flatten_keys (PyDict items) = flatten_keys_items items"
| "flatten_keys PyNone = []"
| "flatten_keys (PyInt n) = []"
| "flatten_keys (PyStr s) = []"
| "flatten_keys_items [] = []"
| "flatten_keys_items ((k, v) # rest) =
     (if is_dict v then map (\<lambda>x. k @ ''.'' @ x) (flatten_keys v) else [k])
     @ flatten_keys_items rest"

text \<open>
  What \<^verbatim>\<open>get_by_path\<close> prints in its \<^verbatim>\<open>except KeyError\<close> branch: the two values
  formatted into the line \<^verbatim>\<open>Did not find log `{}`. Available logs are {}\<close>.
\<close>

datatype message = DidNotFind string "string list"

text \<open>\<^verbatim>\<open>d[p]\<close> for a string \<open>p\<close>.\<close>

fun subscript :: "pyval \<Rightarrow> string \<Rightarrow> error + pyval" where
  "subscript (PyDict items) p =
     (case map_of items p of None \<Rightarrow> Inl (KeyError p) | Some v \<Rightarrow> Inr v)"
| "subscript v p = Inl TypeError"

text \<open>
  The loop \<^verbatim>\<open>for p in path.split('.'): d = d[p]\<close> (lines 111-112).  It rebinds the
  local name \<^verbatim>\<open>d\<close>; when a subscript raises, the result holds the value \<^verbatim>\<open>d\<close> is
  bound to at that moment, which is what the handler sees.
\<close>

fun walk :: "pyval \<Rightarrow> string list \<Rightarrow> (pyval \<times> error) + pyval" where
  "walk d [] = Inr d"
| "walk d (p # ps) =
     (case subscript d p of
        Inl e \<Rightarrow> Inl (d, e)
      | Inr v \<Rightarrow> walk v ps)"

text \<open>
  \<^verbatim>\<open>def get_by_path(d, path)\<close> (lines 99-117): the printed lines and the outcome.  Only
  KeyError is caught; the handler prints and raises the same exception again.
\<close>

definition get_by_path :: "pyval \<Rightarrow> string \<Rightarrow> message list \<times> (error + pyval)" where
  "get_by_path d path =
     (case walk d (str_split (CHR ''.'') path) of
        Inr v \<Rightarrow> ([], Inr v)
      | Inl (d', KeyError k) \<Rightarrow> ([DidNotFind path (flatten_keys d')], Inl (KeyError k))
      | Inl (d', e) \<Rightarrow> ([], Inl e))"

text \<open>
  The specification's wording of a successful resolution: index into the mapping segment
  by segment; every value indexed must be a mapping that has the segment.
\<close>

fun index_path :: "pyval \<Rightarrow> string list \<Rightarrow> pyval option" where
  "index_path d [] = Some d"
| "index_path (PyDict items) (p # ps) =
     (case map_of items p of None \<Rightarrow> None | Some v \<Rightarrow> index_path v ps)"
| "index_path d (p # ps) = None"

text \<open>
  A Python \<^verbatim>\<open>dict\<close> has no key twice; the item lists that stand for dictionaries are
  those with distinct keys at every level.
\<close>

fun distinct_keys :: "pyval \<Rightarrow> bool"
  and distinct_keys_items :: "(string \<times> pyval) list \<Rightarrow> bool" where
  "distinct_keys (PyDict items) = (distinct (map fst items) \<and> distinct_keys_items items)"
| "distinct_keys PyNone = True"
| "distinct_keys (PyInt n) = True"
| "distinct_keys (PyStr s) = True"
| "distinct_keys_items [] = True"
| "distinct_keys_items ((k, v) # rest) = (distinct_keys v \<and> distinct_keys_items rest)"

text \<open>No key at any level contains the separator.\<close>

fun separator_free_keys :: "pyval \<Rightarrow> bool"
  and separator_free_items :: "(string \<times> pyval) list \<Rightarrow> bool" where
  "separator_free_keys (PyDict items) = separator_free_items items"
| "separator_free_keys PyNone = True"
| "separator_free_keys (PyInt n) = True"
| "separator_free_keys (PyStr s) = True"
| "separator_free_items [] = True"
| "separator_free_items ((k, v) # rest) =
     (CHR ''.'' \<notin> set k \<and> separator_free_keys v \<and> separator_free_items rest)"

section \<open>Properties of the nested-sequence functions\<close>

lemma map_offset_append:
  "map (\<lambda>i. n + int i) [0..<a + b] =
   map (\<lambda>i. n + int i) [0..<a] @ map (\<lambda>i. (n + int a) + int i) [0..<b]"
proof -
  have "[0..<a + b] = [0..<a] @ map (\<lambda>i. a + i) [0..<b]"
    using upt_add_eq_append[of 0 a b] map_add_upt[of a b] by (simp add: add.commute)
  then show ?thesis by (simp add: o_def add.assoc)
qed

lemma indices_from_flatten:
  "flatten (fst (convert_to_nested_indices_from c n)) =
     map (\<lambda>i. n + int i) [0..<length (flatten c)]
   \<and> snd (convert_to_nested_indices_from c n) = n + int (length (flatten c))"
proof (induction c n rule: convert_to_nested_indices_from.induct)
  case (1 n)
  then show ?case by simp
next
  case (2 xs rest n)
  obtain inner m where a: "convert_to_nested_indices_from xs n = (inner, m)"
    by (cases "convert_to_nested_indices_from xs n")
  obtain ys k where b: "convert_to_nested_indices_from rest m = (ys, k)"
    by (cases "convert_to_nested_indices_from rest m")
  from 2(1) a have i1: "flatten inner = map (\<lambda>i. n + int i) [0..<length (flatten xs)]"
    and m: "m = n + int (length (flatten xs))" by simp_all
  from 2(2)[OF refl a[symmetric]] b
  have i2: "flatten ys = map (\<lambda>i. m + int i) [0..<length (flatten rest)]"
    and k: "k = m + int (length (flatten rest))" by simp_all
  show ?case using a b i1 i2 m k by (simp add: map_offset_append)
next
  case (3 x rest n)
  obtain ys k where b: "convert_to_nested_indices_from rest (n + 1) = (ys, k)"
    by (cases "convert_to_nested_indices_from rest (n + 1)")
  from 3 b have i2: "flatten ys = map (\<lambda>i. (n + 1) + int i) [0..<length (flatten rest)]"
    and k: "k = (n + 1) + int (length (flatten rest))" by simp_all
  have "map (\<lambda>i. n + int i) [0..<1 + length (flatten rest)] =
        map (\<lambda>i. n + int i) [0..<1] @ map (\<lambda>i. (n + int 1) + int i) [0..<length (flatten rest)]"
    by (rule map_offset_append)
  then show ?case using b i2 k by simp
qed

lemma indices_from_shape:
  "map (map_nested (\<lambda>_. ())) (fst (convert_to_nested_indices_from c n)) =
   map (map_nested (\<lambda>_. ())) c"
proof (induction c n rule: convert_to_nested_indices_from.induct)
  case (1 n)
  then show ?case by simp
next
  case (2 xs rest n)
  obtain inner m where a: "convert_to_nested_indices_from xs n = (inner, m)"
    by (cases "convert_to_nested_indices_from xs n")
  obtain ys k where b: "convert_to_nested_indices_from rest m = (ys, k)"
    by (cases "convert_to_nested_indices_from rest m")
  from 2(1) a have s1: "map (map_nested (\<lambda>_. ())) inner = map (map_nested (\<lambda>_. ())) xs"
    by simp
  from 2(2)[OF refl a[symmetric]] b
  have s2: "map (map_nested (\<lambda>_. ())) ys = map (map_nested (\<lambda>_. ())) rest"
    by simp
  show ?case using a b s1 s2 by simp
next
  case (3 x rest n)
  obtain ys k where b: "convert_to_nested_indices_from rest (n + 1) = (ys, k)"
    by (cases "convert_to_nested_indices_from rest (n + 1)")
  with 3 show ?case by simp
qed

text \<open>
  Claim C1.  For every nested sequence \<open>c\<close>, flattening \<open>convert_to_nested_indices c\<close>
  yields exactly \<open>0, 1, ..., N - 1\<close> in order, where \<open>N\<close> is the number of leaves of \<open>c\<close>
  (the length of \<open>flatten c\<close>); and the result has the shape of \<open>c\<close>: erasing the leaves of
  both gives the same structure.
\<close>

theorem flatten_convert_to_nested_indices:
  "flatten (convert_to_nested_indices c) = map int [0..<length (flatten c)]
   \<and> map (map_nested (\<lambda>_. ())) (convert_to_nested_indices c) = map (map_nested (\<lambda>_. ())) c"
  using indices_from_flatten[of c 0] indices_from_shape[of c 0]
  by (simp add: convert_to_nested_indices_def)

text \<open>
  Claim C8.  \<open>flatten\<close> yields exactly the leaves of its container, depth first and left to
  right: it recurses into every element that is a sequence and emits every other element
  as a leaf, so its result is the concatenation of the leaves of the elements in order.
  On \<^verbatim>\<open>[[1,2],[3,[4,5]],6]\<close> it yields \<^verbatim>\<open>[1,2,3,4,5,6]\<close>.  The generator reads
  nothing but its argument, so its output is a function of the container: two calls on
  the same input give the same sequence.
\<close>

theorem flatten_depth_first_order:
  "flatten c = concat (map leaves c)
   \<and> flatten (Nested xs # rest) = flatten xs @ flatten rest
   \<and> flatten (Item x # rest) = x # flatten rest
   \<and> flatten [Nested [Item 1, Item 2], Nested [Item 3, Nested [Item 4, Item 5]], Item 6]
       = [1, 2, 3, 4, 5, 6 :: int]"
proof -
  have "flatten c = concat (map leaves c)"
    by (induction c rule: flatten.induct) simp_all
  then show ?thesis by simp
qed

section \<open>Splitting and joining strings\<close>

lemma str_split_ne: "str_split sep s \<noteq> []"
  by (induction s) (auto split: list.splits)

lemma str_split_sep_free: "w \<in> set (str_split sep s) \<Longrightarrow> sep \<notin> set w"
  by (induction s arbitrary: w) (auto split: list.splits if_splits)

lemma str_split_no_sep: "sep \<notin> set k \<Longrightarrow> str_split sep k = [k]"
  by (induction k) (auto split: list.splits)

lemma str_split_prefix:
  "sep \<notin> set k \<Longrightarrow> str_split sep (k @ sep # x) = k # str_split sep x"
  by (induction k) (auto split: list.splits)

lemma str_split_join:
  "segs \<noteq> [] \<Longrightarrow> \<forall>w \<in> set segs. sep \<notin> set w \<Longrightarrow> str_split sep (str_join [sep] segs) = segs"
  by (induction "[sep]" segs rule: str_join.induct) (auto simp: str_split_no_sep str_split_prefix)

section \<open>Properties of \<^verbatim>\<open>get_normalized_path\<close>\<close>

lemma collect_parts_eq:
  "collect_parts acc args =
   (if has_marker args then Inl AssertionError else Inr (acc @ path_parts args))"
  by (induction args arbitrary: acc) (simp_all add: has_marker_def path_parts_def)

lemma strip_markers_eq:
  "strip_markers st p =
   (if length st < length (takeWhile (\<lambda>c. c = CHR ''@'') p) then Inl IndexError
    else Inr (take (length st - length (takeWhile (\<lambda>c. c = CHR ''@'') p)) st,
              dropWhile (\<lambda>c. c = CHR ''@'') p))"
proof (induction p arbitrary: st)
  case Nil
  then show ?case by simp
next
  case (Cons c p)
  let ?k = "length (takeWhile (\<lambda>c. c = CHR ''@'') p)"
  show ?case
  proof (cases "c = CHR ''@''")
    case False
    then show ?thesis by simp
  next
    case True
    show ?thesis
    proof (cases "st = []")
      case True
      with \<open>c = CHR ''@''\<close> show ?thesis by simp
    next
      case False
      then have pos: "0 < length st" by simp
      have l: "length (butlast st) = length st - 1" by simp
      from pos have c1: "(length st - 1 < ?k) = (length st < Suc ?k)" by arith
      have c2: "take (length st - 1 - ?k) (butlast st) = take (length st - Suc ?k) st"
        by (simp add: butlast_conv_take min_def)
      have "strip_markers st (c # p) = strip_markers (butlast st) p"
        using True False by simp
      also have "\<dots> = (if length st - 1 < ?k then Inl IndexError
          else Inr (take (length st - 1 - ?k) (butlast st), dropWhile (\<lambda>c. c = CHR ''@'') p))"
        unfolding Cons.IH[of "butlast st"] l ..
      also have "\<dots> = (if length st < Suc ?k then Inl IndexError
          else Inr (take (length st - Suc ?k) st, dropWhile (\<lambda>c. c = CHR ''@'') p))"
        unfolding c1 c2 ..
      finally show ?thesis using True by simp
    qed
  qed
qed

lemma resolve_parts_append:
  "resolve_parts st (ps @ qs) =
   (case resolve_parts st ps of Inl e \<Rightarrow> Inl e | Inr st' \<Rightarrow> resolve_parts st' qs)"
  by (induction ps arbitrary: st) (simp_all split: sum.splits prod.splits)



lemma resolve_parts_plain:
  "resolve_parts st ps = Inr st' \<Longrightarrow> list_all plain_segment st
   \<Longrightarrow> list_all marked_segment ps \<Longrightarrow> \<forall>p \<in> set ps. CHR ''.'' \<notin> set p
   \<Longrightarrow> list_all plain_segment st' \<and> (ps \<noteq> [] \<longrightarrow> st' \<noteq> [])"
proof (induction ps arbitrary: st)
  case Nil
  then show ?case by simp
next
  case (Cons p ps)
  let ?k = "length (takeWhile (\<lambda>c. c = CHR ''@'') p)"
  let ?q = "dropWhile (\<lambda>c. c = CHR ''@'') p"
  let ?st = "take (length st - ?k) st @ [?q]"
  from Cons.prems(1) have r: "resolve_parts ?st ps = Inr st'"
    by (simp add: strip_markers_eq split: if_splits)
  from Cons.prems(3) have "?q \<noteq> []" "CHR ''@'' \<notin> set ?q"
    by (simp_all add: marked_segment_def)
  moreover from Cons.prems(4) have "CHR ''.'' \<notin> set ?q"
    using set_dropWhileD by fastforce
  ultimately have q: "plain_segment ?q" by (simp add: plain_segment_def)
  from Cons.prems(2) have "list_all plain_segment (take (length st - ?k) st)"
    by (auto simp: list_all_iff dest: in_set_takeD)
  with q have g: "list_all plain_segment ?st" by simp
  from Cons.IH[OF r g] Cons.prems(3,4) have a: "list_all plain_segment st'"
    and b: "ps \<noteq> [] \<longrightarrow> st' \<noteq> []" by simp_all
  have "st' \<noteq> []"
  proof (cases ps)
    case Nil
    with r show ?thesis by auto
  next
    case (Cons a list)
    with b show ?thesis by simp
  qed
  with a show ?case by simp
qed

lemma set_str_join: "set (str_join sep xs) \<subseteq> set sep \<union> \<Union> (set ` set xs)"
  by (induction sep xs rule: str_join.induct) auto

lemma str_split_hd: "r \<noteq> [] \<Longrightarrow> hd r = sep \<Longrightarrow> [] \<in> set (str_split sep r)"
  by (cases r) simp_all

lemma str_split_last_empty:
  "r \<noteq> [] \<Longrightarrow> last r = sep
   \<Longrightarrow> last (str_split sep r) = [] \<and> 2 \<le> length (str_split sep r)"
proof (induction r)
  case Nil
  then show ?case by simp
next
  case (Cons a r)
  show ?case
  proof (cases "r = []")
    case True
    with Cons.prems show ?thesis by simp
  next
    case False
    with Cons have ih: "last (str_split sep r) = []" "2 \<le> length (str_split sep r)"
      by simp_all
    then obtain w v ws where "str_split sep r = w # v # ws"
      by (cases "str_split sep r"; cases "tl (str_split sep r)") auto
    with ih show ?thesis by simp
  qed
qed

lemma str_split_last: "r \<noteq> [] \<Longrightarrow> last r = sep \<Longrightarrow> [] \<in> set (str_split sep r)"
  using str_split_last_empty[of r sep] last_in_set[of "str_split sep r"] str_split_ne[of sep r]
  by auto

lemma str_split_empty: "[] \<in> set (str_split sep [])"
  by simp

lemma canonical_join:
  assumes "st \<noteq> []" and "list_all plain_segment st"
  shows "canonical_path (str_join ''.'' st)"
proof -
  let ?r = "str_join ''.'' st"
  from assms(2) have d: "\<forall>w \<in> set st. CHR ''.'' \<notin> set w"
    by (simp add: list_all_iff plain_segment_def)
  from str_split_join[OF assms(1) d] have s: "str_split (CHR ''.'') ?r = st" .
  from assms(2) have e: "[] \<notin> set st" by (auto simp: list_all_iff plain_segment_def)
  with s have ne: "[] \<notin> set (str_split (CHR ''.'') ?r)" by simp
  then have r: "?r \<noteq> []" using str_split_empty[of "CHR ''.''"] by auto
  from ne r have h: "hd ?r \<noteq> CHR ''.''" using str_split_hd[of ?r "CHR ''.''"] by blast
  from ne r have l: "last ?r \<noteq> CHR ''.''" using str_split_last[of ?r "CHR ''.''"] by blast
  from assms(2) have "\<forall>w \<in> set st. CHR ''@'' \<notin> set w"
    by (simp add: list_all_iff plain_segment_def)
  with set_str_join[of "''.''" st] have m: "CHR ''@'' \<notin> set ?r" by auto
  from r ne m h l show ?thesis by (simp add: canonical_path_def)
qed

lemma path_parts_sep_free: "p \<in> set (path_parts args) \<Longrightarrow> CHR ''.'' \<notin> set p"
  by (auto simp: path_parts_def dest: str_split_sep_free)

lemma path_parts_ne: "args \<noteq> [] \<Longrightarrow> path_parts args \<noteq> []"
  by (cases args) (simp_all add: path_parts_def str_split_ne)

lemma path_parts_append: "path_parts (xs @ ys) = path_parts xs @ path_parts ys"
  by (simp add: path_parts_def)

lemma get_normalized_path_eq:
  "get_normalized_path args =
   (if has_marker args \<or> [] \<in> set (path_parts args) then Inl AssertionError
    else (case resolve_parts [] (path_parts args) of
            Inl e \<Rightarrow> Inl e
          | Inr normalized_parts \<Rightarrow> Inr (str_join ''.'' normalized_parts)))"
  by (simp add: get_normalized_path_def collect_parts_eq)

text \<open>
  Where every unreduced segment is a run of markers followed by a non-empty remainder
  without markers, a successful call with at least one fragment returns a canonical
  path.
\<close>

lemma get_normalized_path_marked_segments:
  assumes "get_normalized_path args = Inr r"
    and "list_all marked_segment (path_parts args)"
    and "args \<noteq> []"
  shows "canonical_path r"
proof -
  from assms(1) obtain st where st: "resolve_parts [] (path_parts args) = Inr st"
    and r: "r = str_join ''.'' st"
    by (auto simp: get_normalized_path_eq split: if_splits sum.splits)
  have "\<forall>p \<in> set (path_parts args). CHR ''.'' \<notin> set p"
    by (simp add: path_parts_sep_free)
  from resolve_parts_plain[OF st _ assms(2) this] path_parts_ne[OF assms(3)]
  have "list_all plain_segment st" "st \<noteq> []" by simp_all
  with r show ?thesis by (simp add: canonical_join)
qed

text \<open>
  Claim C2.  Every path that \<open>get_normalized_path\<close> returns should be a CanonicalPath:
  every segment non-empty, no marker character left, the path non-empty and neither
  starting nor ending with the separator.  The function asserts that no fragment holds
  the marker (line 123) and that no unreduced segment is empty (line 126), but it appends
  each segment after stripping its leading markers without looking at what is left
  (lines 130-133).  So \<^verbatim>\<open>get_normalized_path('a..b')\<close> returns \<^verbatim>\<open>a@b\<close>, a path
  that the function itself refuses as a fragment; \<^verbatim>\<open>('a.b', '..')\<close> returns \<^verbatim>\<open>a.\<close>,
  which ends with the separator; and \<^verbatim>\<open>('a', '...b')\<close> returns \<^verbatim>\<open>.b\<close>, which
  starts with an empty segment.
\<close>

theorem get_normalized_path_not_always_canonical:
  "get_normalized_path [''a..b''] = Inr ''a@b''
   \<and> \<not> canonical_path ''a@b''
   \<and> get_normalized_path [''a@b''] = Inl AssertionError
   \<and> get_normalized_path [''a.b'', ''..''] = Inr ''a.''
   \<and> \<not> canonical_path ''a.''
   \<and> get_normalized_path [''a'', ''...b''] = Inr ''.b''
   \<and> \<not> canonical_path ''.b''"
  by (simp add: get_normalized_path_def canonical_path_def)

text \<open>
  Claim C4.  \<open>get_normalized_path\<close> keeps one working stack for the whole call:
  \<^verbatim>\<open>["a","b","c"]\<close> gives \<^verbatim>\<open>a.b.c\<close>, \<^verbatim>\<open>["a.b","..c"]\<close> gives \<^verbatim>\<open>a.c\<close> and
  \<^verbatim>\<open>["a","..b"]\<close> gives \<^verbatim>\<open>b\<close>, the pop of the second fragment removing the segment of
  the first.  In general the segments of all fragments form one sequence, and the stack
  left by the segments of the earlier fragments is the stack the later ones start from.
\<close>

theorem get_normalized_path_one_stack:
  "get_normalized_path [''a'', ''b'', ''c''] = Inr ''a.b.c''
   \<and> get_normalized_path [''a.b'', ''..c''] = Inr ''a.c''
   \<and> get_normalized_path [''a'', ''..b''] = Inr ''b''
   \<and> path_parts (xs @ ys) = path_parts xs @ path_parts ys
   \<and> resolve_parts stack (ps @ qs) =
       (case resolve_parts stack ps of Inl e \<Rightarrow> Inl e | Inr stack' \<Rightarrow> resolve_parts stack' qs)"
proof -
  have "get_normalized_path [''a'', ''b'', ''c''] = Inr ''a.b.c''"
    by (simp add: get_normalized_path_def)
  moreover have "get_normalized_path [''a.b'', ''..c''] = Inr ''a.c''"
    by (simp add: get_normalized_path_def)
  moreover have "get_normalized_path [''a'', ''..b''] = Inr ''b''"
    by (simp add: get_normalized_path_def)
  ultimately show ?thesis
    using path_parts_append[of xs ys] resolve_parts_append[of stack ps qs] by simp
qed



section \<open>Properties of \<^verbatim>\<open>flatten_keys\<close> and \<^verbatim>\<open>get_by_path\<close>\<close>

lemma walk_index: "(walk d segs = Inr v) = (index_path d segs = Some v)"
proof (induction segs arbitrary: d)
  case Nil
  then show ?case by simp
next
  case (Cons p ps)
  then show ?case by (cases d) (simp_all split: option.splits)
qed

lemma flatten_keys_items_concat:
  "flatten_keys_items items =
   concat (map (\<lambda>(k, v). if is_dict v then map (\<lambda>x. k @ ''.'' @ x) (flatten_keys v) else [k]) items)"
  by (induction items) auto

lemma distinct_keys_items_iff:
  "distinct_keys_items items = (\<forall>(k, v) \<in> set items. distinct_keys v)"
  by (induction items) auto

lemma separator_free_items_iff:
  "separator_free_items items = (\<forall>(k, v) \<in> set items. CHR ''.'' \<notin> set k \<and> separator_free_keys v)"
  by (induction items) auto


lemma flatten_keys_walk:
  "distinct_keys root \<Longrightarrow> separator_free_keys root \<Longrightarrow> p \<in> set (flatten_keys root)
   \<Longrightarrow> \<exists>v. walk root (str_split (CHR ''.'') p) = Inr v \<and> \<not> is_dict v"
proof (induction root arbitrary: p)
  case (PyDict items)
  from PyDict.prems(3) obtain k v where kv: "(k, v) \<in> set items"
    and p: "p \<in> set (if is_dict v then map (\<lambda>x. k @ ''.'' @ x) (flatten_keys v) else [k])"
    by (auto simp: flatten_keys_items_concat)
  from PyDict.prems(1) kv have look: "map_of items k = Some v" by simp
  from PyDict.prems(1) kv have dv: "distinct_keys v"
    by (auto simp: distinct_keys_items_iff)
  from PyDict.prems(2) kv have k: "CHR ''.'' \<notin> set k" and sv: "separator_free_keys v"
    by (auto simp: separator_free_items_iff)
  show ?case
  proof (cases "is_dict v")
    case True
    with p obtain x where x: "x \<in> set (flatten_keys v)" and px: "p = k @ CHR ''.'' # x"
      by auto
    have "v \<in> Basic_BNFs.snds (k, v)" by simp
    from PyDict.IH[OF kv this dv sv x]
    obtain w where "walk v (str_split (CHR ''.'') x) = Inr w" "\<not> is_dict w" by blast
    then show ?thesis using look k px by (simp add: str_split_prefix)
  next
    case False
    with p have "p = k" by simp
    then show ?thesis using look k False by (simp add: str_split_no_sep)
  qed
qed simp_all

lemma walk_TypeError:
  "index_path root pre = Some v \<Longrightarrow> \<not> is_dict v \<Longrightarrow> walk root (pre @ s # rest) = Inl (v, TypeError)"
proof (induction pre arbitrary: root)
  case Nil
  then show ?case by (cases v) simp_all
next
  case (Cons p ps)
  then show ?case by (cases root) (simp_all split: option.splits)
qed

lemma walk_Inl:
  "walk root segs = Inl (d, e) \<Longrightarrow>
   \<exists>pre s rest. segs = pre @ s # rest \<and> index_path root pre = Some d \<and> subscript d s = Inl e"
proof (induction segs arbitrary: root)
  case Nil
  then show ?case by simp
next
  case (Cons p ps)
  show ?case
  proof (cases "subscript root p")
    case (Inl e')
    with Cons.prems have "d = root" "e = e'" by simp_all
    with Inl have "p # ps = [] @ p # ps \<and> index_path root [] = Some d \<and> subscript d p = Inl e"
      by simp
    then show ?thesis by blast
  next
    case (Inr v)
    with Cons.prems have "walk v ps = Inl (d, e)" by simp
    from Cons.IH[OF this] obtain pre s rest where
      h: "ps = pre @ s # rest" "index_path v pre = Some d" "subscript d s = Inl e" by blast
    from Inr obtain items where r: "root = PyDict items" and m: "map_of items p = Some v"
      by (cases root) (auto split: option.splits)
    from h r m have "p # ps = (p # pre) @ s # rest \<and> index_path root (p # pre) = Some d
        \<and> subscript d s = Inl e" by simp
    then show ?thesis by blast
  qed
qed

lemma walk_missing:
  "index_path root pre = Some (PyDict items) \<Longrightarrow> map_of items s = None
   \<Longrightarrow> walk root (pre @ s # rest) = Inl (PyDict items, KeyError s)"
proof (induction pre arbitrary: root)
  case Nil
  then show ?case by simp
next
  case (Cons p ps)
  then show ?case by (cases root) (simp_all split: option.splits)
qed

lemma get_by_path_missing_key:
  assumes "str_split (CHR ''.'') p = pre @ s # rest"
    and "index_path root pre = Some (PyDict items)"
    and "map_of items s = None"
  shows "get_by_path root p = ([DidNotFind p (flatten_keys_items items)], Inl (KeyError s))"
  using walk_missing[OF assms(2,3), of rest] assms(1) by (simp add: get_by_path_def)

text \<open>
  Claim C3.  When a segment is missing, \<open>get_by_path\<close> fails with the KeyError of the missing
  segment and prints the full requested path; the claim says that the list printed with
  it is \<open>flatten_keys\<close> of the root.  The handler calls \<^verbatim>\<open>flatten_keys(d)\<close> after the loop
  has rebound \<^verbatim>\<open>d\<close>, so the list is that of the mapping in which the segment was
  missing.  On \<^verbatim>\<open>{"a": {"b": 1}, "c": 2}\<close> and \<^verbatim>\<open>a.x\<close> it prints \<^verbatim>\<open>['b']\<close>, while the
  valid paths of the root are \<^verbatim>\<open>a.b\<close> and \<^verbatim>\<open>c\<close>.  The example of the claim,
  \<^verbatim>\<open>{"a": {"b": {}}}\<close> with \<^verbatim>\<open>a.b.c\<close>, prints the empty list.
\<close>

theorem get_by_path_prints_keys_of_submapping:
  "get_by_path (PyDict [(''a'', PyDict [(''b'', PyInt 1)]), (''c'', PyInt 2)]) ''a.x''
     = ([DidNotFind ''a.x'' [''b'']], Inl (KeyError ''x''))
   \<and> flatten_keys (PyDict [(''a'', PyDict [(''b'', PyInt 1)]), (''c'', PyInt 2)])
     = [''a.b'', ''c'']
   \<and> get_by_path (PyDict [(''a'', PyDict [(''b'', PyDict [])])]) ''a.b.c''
     = ([DidNotFind ''a.b.c'' []], Inl (KeyError ''c''))"
  by (simp add: get_by_path_def)

text \<open>
  Claim C6.  \<open>get_by_path root p\<close> returns \<open>v\<close>, printing nothing, exactly when indexing
  into \<open>root\<close> with the segments of \<open>p\<close>, one after the other, reaches \<open>v\<close> (every value
  indexed on the way being a mapping that has the segment); on \<^verbatim>\<open>{"a":{"b":{"c":5}}}\<close>
  and \<^verbatim>\<open>a.b.c\<close> it returns 5.  The function only reads: it rebinds its local name and
  returns a value, so the mapping passed in is the same afterwards.
\<close>

theorem get_by_path_index_path:
  "(get_by_path root p = ([], Inr v)) = (index_path root (str_split (CHR ''.'') p) = Some v)
   \<and> get_by_path (PyDict [(''a'', PyDict [(''b'', PyDict [(''c'', PyInt 5)])])]) ''a.b.c''
     = ([], Inr (PyInt 5))"
proof -
  have "(get_by_path root p = ([], Inr v)) = (walk root (str_split (CHR ''.'') p) = Inr v)"
    by (auto simp: get_by_path_def split: sum.splits error.splits)
  then have "(get_by_path root p = ([], Inr v)) = (index_path root (str_split (CHR ''.'') p) = Some v)"
    by (simp add: walk_index)
  moreover have "get_by_path (PyDict [(''a'', PyDict [(''b'', PyDict [(''c'', PyInt 5)])])]) ''a.b.c''
     = ([], Inr (PyInt 5))"
    by (simp add: get_by_path_def)
  ultimately show ?thesis by simp
qed

text \<open>
  Claim C7.  \<open>flatten_keys\<close> goes through every item of a mapping: an item whose value is
  a mapping contributes the paths of that value, each prefixed with the key and the
  separator; any other item contributes its key alone.  A value that is not a mapping
  gives the empty list.  On \<^verbatim>\<open>{"a":1,"b":{"x":2,"y":3}}\<close> the set of the paths is
  \<^verbatim>\<open>{"a","b.x","b.y"}\<close>.
\<close>

theorem flatten_keys_paths:
  "flatten_keys d =
     (case d of
        PyDict items \<Rightarrow>
          concat (map (\<lambda>(k, v). if is_dict v then map (\<lambda>x. k @ ''.'' @ x) (flatten_keys v)
                                  else [k]) items)
      | _ \<Rightarrow> [])
   \<and> set (flatten_keys (PyDict [(''a'', PyInt 1), (''b'', PyDict [(''x'', PyInt 2), (''y'', PyInt 3)])]))
     = {''a'', ''b.x'', ''b.y''}"
proof -
  have "flatten_keys d =
     (case d of
        PyDict items \<Rightarrow>
          concat (map (\<lambda>(k, v). if is_dict v then map (\<lambda>x. k @ ''.'' @ x) (flatten_keys v)
                                  else [k]) items)
      | _ \<Rightarrow> [])"
    by (cases d) (simp_all add: flatten_keys_items_concat)
  moreover have "set (flatten_keys (PyDict [(''a'', PyInt 1), (''b'', PyDict [(''x'', PyInt 2), (''y'', PyInt 3)])]))
     = {''a'', ''b.x'', ''b.y''}"
    by simp
  ultimately show ?thesis by simp
qed

text \<open>
  Claim C9.  For every nested mapping in which no key contains the separator, every path
  returned by \<open>flatten_keys\<close> resolves: \<open>get_by_path\<close> on it prints nothing and returns a
  value that is not a mapping.
\<close>

theorem flatten_keys_resolve_to_leaves:
  assumes "distinct_keys root" and "separator_free_keys root"
    and "p \<in> set (flatten_keys root)"
  shows "\<exists>v. get_by_path root p = ([], Inr v) \<and> \<not> is_dict v"
proof -
  from flatten_keys_walk[OF assms]
  obtain v where "walk root (str_split (CHR ''.'') p) = Inr v" "\<not> is_dict v" by blast
  then have "get_by_path root p = ([], Inr v) \<and> \<not> is_dict v"
    by (simp add: get_by_path_def)
  then show ?thesis by blast
qed

theorem flatten_keys_resolve_to_leaves_witness:
  "distinct_keys (PyDict [(''a'', PyInt 1), (''b'', PyDict [(''x'', PyInt 2), (''y'', PyInt 3)])])
   \<and> separator_free_keys (PyDict [(''a'', PyInt 1), (''b'', PyDict [(''x'', PyInt 2), (''y'', PyInt 3)])])
   \<and> ''b.x'' \<in> set (flatten_keys (PyDict [(''a'', PyInt 1), (''b'', PyDict [(''x'', PyInt 2), (''y'', PyInt 3)])]))
   \<and> (\<exists>v. get_by_path (PyDict [(''a'', PyInt 1), (''b'', PyDict [(''x'', PyInt 2), (''y'', PyInt 3)])]) ''b.x''
            = ([], Inr v) \<and> \<not> is_dict v)"
proof -
  let ?root = "PyDict [(''a'', PyInt 1), (''b'', PyDict [(''x'', PyInt 2), (''y'', PyInt 3)])]"
  have a: "distinct_keys ?root" by simp
  have b: "separator_free_keys ?root" by simp
  have c: "''b.x'' \<in> set (flatten_keys ?root)" by simp
  from flatten_keys_resolve_to_leaves[OF a b c] a b c show ?thesis by blast
qed

text \<open>
  Claim C10.  If a prefix of the segments of the path resolves to a leaf and a further
  segment follows, \<open>get_by_path\<close> fails with TypeError and prints nothing: the handler for
  KeyError is not entered.  Whenever the diagnostic line is printed, a segment was
  missing from a mapping reached by the segments before it.
\<close>

theorem get_by_path_through_leaf:
  "(str_split (CHR ''.'') p = pre @ s # rest \<and> index_path root pre = Some v \<and> \<not> is_dict v
      \<longrightarrow> get_by_path root p = ([], Inl TypeError))
   \<and> (fst (get_by_path root p) \<noteq> []
      \<longrightarrow> (\<exists>pre s rest items. str_split (CHR ''.'') p = pre @ s # rest
             \<and> index_path root pre = Some (PyDict items) \<and> map_of items s = None))"
proof -
  have a: "get_by_path root p = ([], Inl TypeError)"
    if "str_split (CHR ''.'') p = pre @ s # rest" "index_path root pre = Some v" "\<not> is_dict v"
    using walk_TypeError[OF that(2,3), of s rest] that(1) by (simp add: get_by_path_def)
  have b: "\<exists>pre s rest items. str_split (CHR ''.'') p = pre @ s # rest
             \<and> index_path root pre = Some (PyDict items) \<and> map_of items s = None"
    if "fst (get_by_path root p) \<noteq> []"
  proof -
    from that obtain d k where w: "walk root (str_split (CHR ''.'') p) = Inl (d, KeyError k)"
      by (auto simp: get_by_path_def split: sum.splits error.splits)
    from walk_Inl[OF w] obtain pre s rest where
      h: "str_split (CHR ''.'') p = pre @ s # rest" "index_path root pre = Some d"
         "subscript d s = Inl (KeyError k)" by blast
    from h(3) obtain items where "d = PyDict items" "map_of items s = None"
      by (cases d) (auto split: option.splits)
    with h show ?thesis by blast
  qed
  from a b show ?thesis by blast
qed

theorem get_by_path_through_leaf_witness:
  "str_split (CHR ''.'') ''a.b.c'' = [''a'', ''b''] @ ''c'' # []
   \<and> index_path (PyDict [(''a'', PyDict [(''b'', PyInt 1)]), (''c'', PyInt 2)]) [''a'', ''b'']
       = Some (PyInt 1)
   \<and> \<not> is_dict (PyInt 1)
   \<and> get_by_path (PyDict [(''a'', PyDict [(''b'', PyInt 1)]), (''c'', PyInt 2)]) ''a.b.c''
       = ([], Inl TypeError)
   \<and> fst (get_by_path (PyDict [(''a'', PyDict [(''b'', PyInt 1)]), (''c'', PyInt 2)]) ''a.x'') \<noteq> []
   \<and> (\<exists>pre s rest items. str_split (CHR ''.'') ''a.x'' = pre @ s # rest
        \<and> index_path (PyDict [(''a'', PyDict [(''b'', PyInt 1)]), (''c'', PyInt 2)]) pre
            = Some (PyDict items)
        \<and> map_of items s = None)"
proof -
  let ?root = "PyDict [(''a'', PyDict [(''b'', PyInt 1)]), (''c'', PyInt 2)]"
  have a: "str_split (CHR ''.'') ''a.b.c'' = [''a'', ''b''] @ ''c'' # []" by simp
  have b: "index_path ?root [''a'', ''b''] = Some (PyInt 1)" by simp
  have c: "\<not> is_dict (PyInt 1)" by simp
  have d: "fst (get_by_path ?root ''a.x'') \<noteq> []" by (simp add: get_by_path_def)
  from get_by_path_through_leaf[of "''a.b.c''" "[''a'', ''b'']" "''c''" "[]" ?root "PyInt 1"]
    a b c
  have e: "get_by_path ?root ''a.b.c'' = ([], Inl TypeError)" by blast
  from get_by_path_through_leaf[of "''a.x''" "[]" "''a''" "[]" ?root "?root"] d
  have f: "\<exists>pre s rest items. str_split (CHR ''.'') ''a.x'' = pre @ s # rest
        \<and> index_path ?root pre = Some (PyDict items) \<and> map_of items s = None" by blast
  from a b c d e f show ?thesis by blast
qed

end
